theory Spec2Isabelle
  imports Main
begin

section \<open>The event primitive (event.cpp)\<close>

text \<open>
  An \<open>Event\<close> has the three members that event.cpp reads and writes: \<open>_time\<close>,
  \<open>_stepperNum\<close> and \<open>_isForward\<close>.  The clock \<open>EventClockT\<close>, the index type
  \<open>AxisIdType\<close> and the sentinel \<open>NULL_STEPPER_ID\<close> are declared in headers that are
  not among the sources, so they are parameters here: \<open>'t\<close> is the tick representation of
  \<open>EventClockT::time_point\<close> and of \<open>EventClockT::duration\<close> (instantiate it with \<open>int\<close>
  for an ideal tick count, or with a word type for a count that wraps), \<open>'a\<close> is
  \<open>AxisIdType\<close>, and the sentinel is the first argument of \<open>isNull\<close>.
\<close>

datatype StepDirection = StepForward | StepBackward

record ('t, 'a) Event =
  ev_time :: 't
  ev_stepperNum :: 'a
  ev_isForward :: bool

definition stepperId :: "('t, 'a) Event \<Rightarrow> 'a" where
  "stepperId e = ev_stepperNum e"

definition direction :: "('t, 'a) Event \<Rightarrow> StepDirection" where
  "direction e = (if ev_isForward e then StepForward else StepBackward)"

definition time :: "('t, 'a) Event \<Rightarrow> 't" where
  "time e = ev_time e"

definition isNull :: "'a \<Rightarrow> ('t, 'a) Event \<Rightarrow> bool" where
  "isNull NULL_STEPPER_ID e = (stepperId e = NULL_STEPPER_ID)"

text \<open>The constructor \<open>Event(t, stepperNum, dir)\<close>.\<close>

definition Event_init :: "'t \<Rightarrow> 'a \<Rightarrow> StepDirection \<Rightarrow> ('t, 'a) Event" where
  "Event_init t stepperNum dir =
     \<lparr>ev_time = t, ev_stepperNum = stepperNum, ev_isForward = (dir = StepForward)\<rparr>"

text \<open>\<open>offset\<close> is \<open>this->_time += offset\<close>; nothing else is assigned.\<close>

definition offset :: "('t::plus, 'a) Event \<Rightarrow> 't \<Rightarrow> ('t, 'a) Event" where
  "offset e d = e\<lparr>ev_time := ev_time e + d\<rparr>"

text \<open>
  \<open>offsetNano\<close> casts a number of nanoseconds to the clock's duration and offsets by it;
  the cast belongs to the clock and is the parameter \<open>duration_cast\<close>.
\<close>

definition offsetNano :: "(nat \<Rightarrow> 't) \<Rightarrow> ('t::plus, 'a) Event \<Rightarrow> nat \<Rightarrow> ('t, 'a) Event" where
  "offsetNano duration_cast e nsec = offset e (duration_cast nsec)"

text \<open>\<open>operator<\<close> and \<open>operator>\<close>.\<close>

definition Event_less :: "('t::ord, 'a) Event \<Rightarrow> ('t, 'a) Event \<Rightarrow> bool" where
  "Event_less e other = (time e < time other)"

definition Event_greater :: "('t::ord, 'a) Event \<Rightarrow> ('t, 'a) Event \<Rightarrow> bool" where
  "Event_greater e other = (time e > time other)"

section \<open>The device set container (iodrivers.h)\<close>

text \<open>
  The tuple of drivers is a list of driver states of one type \<open>'d\<close> (the sum of the
  concrete driver types); its length is \<open>std::tuple_size<TupleT>::value\<close>.  A cursor
  (\<open>iteratorbase\<close>) of a container is its index \<open>idx\<close>: all cursors of one container
  hold the same tuple pointer, so \<open>operator==\<close> is equality of the indices.

  The only run-time failure of the container is the assertion in \<open>operator++\<close>.  It ends
  the program, so it is a \<open>fault\<close> that every caller passes on unchanged.
\<close>

datatype fault = AssertionFailure

datatype ShortCircuitType = NO_SHORT_CIRCUIT | DO_SHORT_CIRCUIT

text \<open>
  What a cursor designates: the driver at its index, or no driver when the index is not
  below the size (the end cursor).  The const interface of \<open>iteratorbase\<close> reaches
  nothing but that driver, so a predicate, which receives the cursor, is a function of
  what the cursor designates.  \<open>operator++\<close> applies the predicate to the end cursor
  too (it tests the predicate before \<open>isAtEnd\<close>), hence the option.
\<close>

definition driverAt :: "'d list \<Rightarrow> nat \<Rightarrow> 'd option" where
  "driverAt t idx = (if idx < length t then Some (t ! idx) else None)"

type_synonym 'd Predicate = "'d option \<Rightarrow> bool"

definition isAtEnd :: "'d list \<Rightarrow> nat \<Rightarrow> bool" where
  "isAtEnd t idx = (idx = length t)"

definition NoPredicate :: "'d Predicate" where
  "NoPredicate self = True"

definition Union_pred :: "'d Predicate \<Rightarrow> 'd Predicate \<Rightarrow> 'd Predicate" where
  "Union_pred PredA PredB self = (PredA self \<or> PredB self)"

definition Intersection :: "'d Predicate \<Rightarrow> 'd Predicate \<Rightarrow> 'd Predicate" where
  "Intersection PredA PredB self = (PredA self \<and> PredB self)"

text \<open>
  \<open>iterator::operator++\<close>: the do-while loop, one call per round.  Each round asserts
  that the cursor is not at the end, steps, and goes round again while the predicate
  rejects the new position and the new position is not the end.  The result is the fault
  or the new index; \<open>None\<close> stands for a loop that does not come back (a cursor beyond
  the end, which no operation of the container produces).
\<close>

partial_function (option) increment ::
  "'d Predicate \<Rightarrow> 'd list \<Rightarrow> nat \<Rightarrow> (fault + nat) option" where
  "increment P t idx =
     (if isAtEnd t idx then Some (Inl AssertionFailure)
      else let idx' = idx + 1 in
        if \<not> P (driverAt t idx') \<and> \<not> isAtEnd t idx' then increment P t idx'
        else Some (Inr idx'))"

declare increment.simps [code]

text \<open>The constructor \<open>iterator(drivers, idx, filterFirst)\<close>.\<close>

definition iterator :: "'d Predicate \<Rightarrow> 'd list \<Rightarrow> nat \<Rightarrow> bool \<Rightarrow> (fault + nat) option" where
  "iterator P t idx filterFirst =
     (if filterFirst \<and> \<not> P (driverAt t idx) then increment P t idx else Some (Inr idx))"

definition begin_it :: "'d Predicate \<Rightarrow> 'd list \<Rightarrow> (fault + nat) option" where
  "begin_it P t = iterator P t 0 True"

definition end_it :: "'d Predicate \<Rightarrow> 'd list \<Rightarrow> (fault + nat) option" where
  "end_it P t = iterator P t (length t) False"

text \<open>
  \<open>iterinfo::reduce\<close>.  The function \<open>f\<close> receives the accumulator and the cursor; through
  the cursor it reads and changes the driver under it, so in the model it takes the
  cursor's index and that driver and returns the new accumulator and the driver's new
  state, which is stored back into the tuple.  \<open>reduce_loop\<close> is the range-based for
  loop from the cursor \<open>it\<close> up to the cursor \<open>e\<close>.  A cursor that is neither \<open>e\<close> nor on
  a driver does not arise from \<open>begin()\<close>; the model gives no result for it.
\<close>

partial_function (option) reduce_loop ::
  "'d Predicate \<Rightarrow> ('r \<Rightarrow> nat \<Rightarrow> 'd \<Rightarrow> 'r \<times> 'd) \<Rightarrow> nat \<Rightarrow> nat \<Rightarrow> 'r \<Rightarrow> 'd list
     \<Rightarrow> (fault + 'r \<times> 'd list) option" where
  "reduce_loop P f e it reduced t =
     (if it = e then Some (Inr (reduced, t))
      else case driverAt t it of
        None \<Rightarrow> None
      | Some d \<Rightarrow>
          (case f reduced it d of (reduced', d') \<Rightarrow>
             (case increment P (t[it := d']) it of
                None \<Rightarrow> None
              | Some (Inl a) \<Rightarrow> Some (Inl a)
              | Some (Inr it') \<Rightarrow> reduce_loop P f e it' reduced' (t[it := d']))))"

declare reduce_loop.simps [code]

definition reduce ::
  "'d Predicate \<Rightarrow> ('r \<Rightarrow> nat \<Rightarrow> 'd \<Rightarrow> 'r \<times> 'd) \<Rightarrow> 'r \<Rightarrow> 'd list
     \<Rightarrow> (fault + 'r \<times> 'd list) option" where
  "reduce P f dflt t =
     (case begin_it P t of
        None \<Rightarrow> None
      | Some (Inl a) \<Rightarrow> Some (Inl a)
      | Some (Inr b) \<Rightarrow>
          (case end_it P t of
             None \<Rightarrow> None
           | Some (Inl a) \<Rightarrow> Some (Inl a)
           | Some (Inr e) \<Rightarrow> reduce_loop P f e b dflt t))"

text \<open>
  \<open>iterinfo::any\<close> and \<open>iterinfo::all\<close>.  The probe \<open>f\<close> receives the cursor and returns
  its answer and the new state of the driver under the cursor.  The two arms of the
  lambda differ in the operand order of \<open>||\<close> (of \<open>&&\<close>): \<open>reduced || f(d)\<close> calls
  \<open>f\<close> only when \<open>reduced\<close> is false, \<open>f(d) || reduced\<close> always calls it.
\<close>

definition any ::
  "'d Predicate \<Rightarrow> (nat \<Rightarrow> 'd \<Rightarrow> bool \<times> 'd) \<Rightarrow> ShortCircuitType \<Rightarrow> 'd list
     \<Rightarrow> (fault + bool \<times> 'd list) option" where
  "any P f shortCircuit t =
     reduce P (\<lambda>reduced it d.
       if shortCircuit = DO_SHORT_CIRCUIT
       then (if reduced then (True, d) else f it d)
       else (case f it d of (b, d') \<Rightarrow> (b \<or> reduced, d'))) False t"

definition all ::
  "'d Predicate \<Rightarrow> (nat \<Rightarrow> 'd \<Rightarrow> bool \<times> 'd) \<Rightarrow> ShortCircuitType \<Rightarrow> 'd list
     \<Rightarrow> (fault + bool \<times> 'd list) option" where
  "all P f shortCircuit t =
     reduce P (\<lambda>reduced it d.
       if shortCircuit = DO_SHORT_CIRCUIT
       then (if reduced then f it d else (False, d))
       else (case f it d of (b, d') \<Rightarrow> (b \<and> reduced, d'))) True t"

text \<open>\<open>iterinfo::length\<close>, \<open>iterinfo::empty\<close> and \<open>iterinfo::apply\<close>.\<close>

definition length_view :: "'d Predicate \<Rightarrow> 'd list \<Rightarrow> (fault + nat \<times> 'd list) option" where
  "length_view P t = reduce P (\<lambda>numSeen it d. (numSeen + 1, d)) 0 t"

definition empty_view :: "'d Predicate \<Rightarrow> 'd list \<Rightarrow> (fault + bool) option" where
  "empty_view P t =
     (case begin_it P t of
        None \<Rightarrow> None
      | Some (Inl a) \<Rightarrow> Some (Inl a)
      | Some (Inr b) \<Rightarrow>
          (case end_it P t of
             None \<Rightarrow> None
           | Some (Inl a) \<Rightarrow> Some (Inl a)
           | Some (Inr e) \<Rightarrow> Some (Inr (b = e))))"

definition apply_view ::
  "'d Predicate \<Rightarrow> (nat \<Rightarrow> 'd \<Rightarrow> 'd) \<Rightarrow> 'd list \<Rightarrow> (fault + unit \<times> 'd list) option" where
  "apply_view P f t = reduce P (\<lambda>u it d. ((), f it d)) () t"

subsection \<open>Views\<close>

text \<open>
  An \<open>iterinfo<Predicate>\<close> holds the tuple reference and nothing else; the view is its
  predicate.  \<open>unionWith\<close> and the \<open>filter\<close> of a view only build the predicate type.
\<close>

definition iter :: "'d Predicate" where
  "iter = NoPredicate"

definition filter_drivers :: "'d Predicate \<Rightarrow> 'd Predicate" where
  "filter_drivers p = p"

definition unionWith :: "'d Predicate \<Rightarrow> 'd Predicate \<Rightarrow> 'd Predicate" where
  "unionWith P PredB = Union_pred P PredB"

definition filter_view :: "'d Predicate \<Rightarrow> 'd Predicate \<Rightarrow> 'd Predicate" where
  "filter_view P PredB = Intersection P PredB"

text \<open>
  The drivers and \<open>tupleCallOnIndex\<close> are declared outside the sources.  What the
  container uses of them is gathered in a record.  A bool query of a cursor, such as
  \<open>iteratorbase::isFan\<close>, is \<open>tupleCallOnIndex(tuple(), GenericIsFan(), idx)\<close>: on a cursor
  that designates a driver it is that driver's \<open>isFan()\<close>, on the end cursor it is
  whatever \<open>tupleCallOnIndex\<close> yields there; so the query is a function of what the cursor
  designates.  \<open>peekNextEvent\<close> and \<open>onIdleCpu\<close> are called on drivers only; the latter
  returns its answer and the driver's new state.  \<open>'i\<close> is \<open>OnIdleCpuIntervalT\<close>.
\<close>

record ('d, 't, 'a, 'i) Capabilities =
  drv_isFan :: "'d option \<Rightarrow> bool"
  drv_isHotend :: "'d option \<Rightarrow> bool"
  drv_isHeatedBed :: "'d option \<Rightarrow> bool"
  drv_isServo :: "'d option \<Rightarrow> bool"
  drv_isEndstop :: "'d option \<Rightarrow> bool"
  drv_peekNextEvent :: "'d \<Rightarrow> ('t, 'a) Event"
  drv_onIdleCpu :: "'d \<Rightarrow> 'i \<Rightarrow> bool \<times> 'd"

definition GenericIsFan :: "('d, 't, 'a, 'i) Capabilities \<Rightarrow> 'd Predicate" where
  "GenericIsFan c self = drv_isFan c self"

definition GenericIsHotend :: "('d, 't, 'a, 'i) Capabilities \<Rightarrow> 'd Predicate" where
  "GenericIsHotend c self = drv_isHotend c self"

definition GenericIsHeatedBed :: "('d, 't, 'a, 'i) Capabilities \<Rightarrow> 'd Predicate" where
  "GenericIsHeatedBed c self = drv_isHeatedBed c self"

definition GenericIsServo :: "('d, 't, 'a, 'i) Capabilities \<Rightarrow> 'd Predicate" where
  "GenericIsServo c self = drv_isServo c self"

definition GenericIsEndstop :: "('d, 't, 'a, 'i) Capabilities \<Rightarrow> 'd Predicate" where
  "GenericIsEndstop c self = drv_isEndstop c self"

definition GenericOnIdleCpu ::
  "('d, 't, 'a, 'i) Capabilities \<Rightarrow> 'i \<Rightarrow> nat \<Rightarrow> 'd \<Rightarrow> bool \<times> 'd" where
  "GenericOnIdleCpu c interval it d = drv_onIdleCpu c d interval"

definition fans :: "('d, 't, 'a, 'i) Capabilities \<Rightarrow> 'd Predicate" where
  "fans c = filter_drivers (GenericIsFan c)"

definition hotends :: "('d, 't, 'a, 'i) Capabilities \<Rightarrow> 'd Predicate" where
  "hotends c = filter_drivers (GenericIsHotend c)"

definition heatedBeds :: "('d, 't, 'a, 'i) Capabilities \<Rightarrow> 'd Predicate" where
  "heatedBeds c = filter_drivers (GenericIsHeatedBed c)"

definition heaters :: "('d, 't, 'a, 'i) Capabilities \<Rightarrow> 'd Predicate" where
  "heaters c = unionWith (hotends c) (heatedBeds c)"

definition servos :: "('d, 't, 'a, 'i) Capabilities \<Rightarrow> 'd Predicate" where
  "servos c = filter_drivers (GenericIsServo c)"

definition endstops :: "('d, 't, 'a, 'i) Capabilities \<Rightarrow> 'd Predicate" where
  "endstops c = filter_drivers (GenericIsEndstop c)"

subsection \<open>The scheduling protocol\<close>

definition onIdleCpu ::
  "('d, 't, 'a, 'i) Capabilities \<Rightarrow> 'i \<Rightarrow> 'd list \<Rightarrow> (fault + bool \<times> 'd list) option" where
  "onIdleCpu c interval t = any iter (GenericOnIdleCpu c interval) NO_SHORT_CIRCUIT t"

text \<open>
  Modelled from the spec: the event type of the container, \<open>OutputEvent\<close>, and its default
  constructor are declared outside the sources.  The spec has one event type, so
  \<open>OutputEvent\<close> is the \<open>Event\<close> above; of a default-constructed event the spec fixes only
  that its device index is the sentinel (time and direction are unspecified), so they are
  taken from the argument \<open>e0\<close>.
\<close>

definition OutputEvent_default :: "'a \<Rightarrow> ('t, 'a) Event \<Rightarrow> ('t, 'a) Event" where
  "OutputEvent_default NULL_STEPPER_ID e0 = e0\<lparr>ev_stepperNum := NULL_STEPPER_ID\<rparr>"

text \<open>
  The lambda of \<open>IODrivers::peekNextEvent\<close>; \<open>||\<close> and \<open>&&\<close> read the time of
  \<open>reduced.second\<close> only when it is not null.  Peeking is a const call: the driver is
  returned as it was.
\<close>

definition peekNextEvent_step ::
  "('d, 't::ord, 'a, 'i) Capabilities \<Rightarrow> 'a \<Rightarrow> nat \<times> ('t, 'a) Event \<Rightarrow> nat \<Rightarrow> 'd
     \<Rightarrow> (nat \<times> ('t, 'a) Event) \<times> 'd" where
  "peekNextEvent_step c NULL_STEPPER_ID reduced it d =
     (let curEvt = drv_peekNextEvent c d;
          isCurEvtSooner =
            (isNull NULL_STEPPER_ID (snd reduced)
             \<or> (\<not> isNull NULL_STEPPER_ID curEvt \<and> time curEvt < time (snd reduced)))
      in (if isCurEvtSooner then (it, curEvt) else reduced, d))"

definition peekNextEvent ::
  "('d, 't::ord, 'a, 'i) Capabilities \<Rightarrow> 'a \<Rightarrow> ('t, 'a) Event \<Rightarrow> 'd list
     \<Rightarrow> (fault + (nat \<times> ('t, 'a) Event) \<times> 'd list) option" where
  "peekNextEvent c NULL_STEPPER_ID e0 t =
     (case end_it iter t of
        None \<Rightarrow> None
      | Some (Inl a) \<Rightarrow> Some (Inl a)
      | Some (Inr e) \<Rightarrow>
          reduce iter (peekNextEvent_step c NULL_STEPPER_ID)
            (e, OutputEvent_default NULL_STEPPER_ID e0) t)"

section \<open>Reference definitions\<close>

text \<open>
  The words of the specification, to compare the code with.  The devices a view matches
  are the indices, in ascending order, of the drivers its predicate accepts.  One round
  of a left fold calls \<open>f\<close> on the accumulator and the driver at an index and stores the
  driver's new state.  \<open>skipped P t j\<close> counts the drivers from index \<open>j\<close> on that the
  predicate rejects before it accepts one.
\<close>

definition matching :: "'d Predicate \<Rightarrow> 'd list \<Rightarrow> nat list" where
  "matching P t = filter (\<lambda>i. P (Some (t ! i))) [0..<length t]"

definition step_at ::
  "('r \<Rightarrow> nat \<Rightarrow> 'd \<Rightarrow> 'r \<times> 'd) \<Rightarrow> 'r \<times> 'd list \<Rightarrow> nat \<Rightarrow> 'r \<times> 'd list" where
  "step_at f s i = (case f (fst s) i (snd s ! i) of (r', d') \<Rightarrow> (r', (snd s)[i := d']))"

definition skipped :: "'d Predicate \<Rightarrow> 'd list \<Rightarrow> nat \<Rightarrow> nat" where
  "skipped P t j = length (takeWhile (\<lambda>i. \<not> P (Some (t ! i))) [j..<length t])"

text \<open>
  The four arms of the lambdas of \<open>any\<close> and \<open>all\<close>, named; the drivers after \<open>f\<close> has
  been called once on each driver whose index is in \<open>js\<close>; and the indices of \<open>js\<close> up
  to and including the first that satisfies \<open>Q\<close>.
\<close>

definition or_step :: "(nat \<Rightarrow> 'd \<Rightarrow> bool \<times> 'd) \<Rightarrow> bool \<Rightarrow> nat \<Rightarrow> 'd \<Rightarrow> bool \<times> 'd" where
  "or_step f reduced it d = (case f it d of (b, d') \<Rightarrow> (b \<or> reduced, d'))"

definition and_step :: "(nat \<Rightarrow> 'd \<Rightarrow> bool \<times> 'd) \<Rightarrow> bool \<Rightarrow> nat \<Rightarrow> 'd \<Rightarrow> bool \<times> 'd" where
  "and_step f reduced it d = (case f it d of (b, d') \<Rightarrow> (b \<and> reduced, d'))"

definition sc_or_step :: "(nat \<Rightarrow> 'd \<Rightarrow> bool \<times> 'd) \<Rightarrow> bool \<Rightarrow> nat \<Rightarrow> 'd \<Rightarrow> bool \<times> 'd" where
  "sc_or_step f reduced it d = (if reduced then (True, d) else f it d)"

definition sc_and_step :: "(nat \<Rightarrow> 'd \<Rightarrow> bool \<times> 'd) \<Rightarrow> bool \<Rightarrow> nat \<Rightarrow> 'd \<Rightarrow> bool \<times> 'd" where
  "sc_and_step f reduced it d = (if reduced then f it d else (False, d))"

definition called_on :: "(nat \<Rightarrow> 'd \<Rightarrow> bool \<times> 'd) \<Rightarrow> nat list \<Rightarrow> 'd list \<Rightarrow> 'd list" where
  "called_on f js t = map (\<lambda>k. if k \<in> set js then snd (f k (t ! k)) else t ! k) [0..<length t]"

definition upto_first :: "(nat \<Rightarrow> bool) \<Rightarrow> nat list \<Rightarrow> nat list" where
  "upto_first Q js = takeWhile (\<lambda>j. \<not> Q j) js @ take 1 (dropWhile (\<lambda>j. \<not> Q j) js)"

text \<open>
  The running best of \<open>peekNextEvent\<close> after the first \<open>n\<close> drivers, from the start
  value \<open>b\<close>.
\<close>

definition best_upto ::
  "('d, 't::ord, 'a, 'i) Capabilities \<Rightarrow> 'a \<Rightarrow> nat \<times> ('t, 'a) Event \<Rightarrow> 'd list \<Rightarrow> nat
     \<Rightarrow> nat \<times> ('t, 'a) Event" where
  "best_upto c N b t n = fst (foldl (step_at (peekNextEvent_step c N)) (b, t) [0..<n])"

text \<open>
  A view selects the index \<open>i\<close> when iterating it (here with \<open>reduce\<close>, collecting the
  cursors that the loop body sees) visits the cursor of index \<open>i\<close>.  An iteration that
  ends in the assertion failure visits no cursor.
\<close>

definition selects :: "'d Predicate \<Rightarrow> 'd list \<Rightarrow> nat \<Rightarrow> bool" where
  "selects P t i =
     (case reduce P (\<lambda>seen it d. (seen @ [it], d)) [] t of
        Some (Inr (seen, t')) \<Rightarrow> i \<in> set seen
      | _ \<Rightarrow> False)"

subsection \<open>Example drivers\<close>

text \<open>
  A driver for the concrete instances below: it holds its pending event, whether it
  wants more idle time, and the number of idle ticks it has received.  Ticks are
  nanoseconds, device indices are numbers, and 255 serves as the sentinel.
\<close>

record ExDriver =
  ex_pending :: "(int, nat) Event"
  ex_wants :: bool
  ex_ticks :: nat

definition ex_onIdleCpu :: "ExDriver \<Rightarrow> nat \<Rightarrow> bool \<times> ExDriver" where
  "ex_onIdleCpu d interval = (ex_wants d, d\<lparr>ex_ticks := ex_ticks d + 1\<rparr>)"

definition ex_never :: "ExDriver Predicate" where
  "ex_never self = False"

definition ex_wanting :: "ExDriver Predicate" where
  "ex_wanting self = (case self of Some d \<Rightarrow> ex_wants d | None \<Rightarrow> False)"

definition ex_caps :: "(ExDriver, int, nat, nat) Capabilities" where
  "ex_caps =
     \<lparr>drv_isFan = ex_never, drv_isHotend = ex_never, drv_isHeatedBed = ex_never,
      drv_isServo = ex_never, drv_isEndstop = ex_never,
      drv_peekNextEvent = ex_pending, drv_onIdleCpu = ex_onIdleCpu\<rparr>"

definition ex_driver :: "int \<Rightarrow> nat \<Rightarrow> bool \<Rightarrow> ExDriver" where
  "ex_driver t stepperNum wants =
     \<lparr>ex_pending = Event_init t stepperNum StepForward, ex_wants = wants, ex_ticks = 0\<rparr>"

definition ex_e0 :: "(int, nat) Event" where
  "ex_e0 = Event_init 0 0 StepForward"

definition ex_tuple :: "ExDriver list" where
  "ex_tuple = [ex_driver 7 255 False, ex_driver 5000 0 False, ex_driver 3000 1 True,
               ex_driver 3000 2 False]"

section \<open>Events\<close>

text \<open>
  C7.  Offsetting an event by a duration \<open>d\<close> gives the scheduled time \<open>time e + d\<close> and
  leaves the device index and the direction as they were; \<open>offsetNano\<close> does the same
  with the duration that the nanoseconds are cast to.
\<close>

theorem offset_adds_duration:
  "time (offset e d) = time e + d
   \<and> stepperId (offset e d) = stepperId e
   \<and> direction (offset e d) = direction e
   \<and> time (offsetNano duration_cast e nsec) = time e + duration_cast nsec
   \<and> stepperId (offsetNano duration_cast e nsec) = stepperId e
   \<and> direction (offsetNano duration_cast e nsec) = direction e"
  by (simp add: offsetNano_def offset_def time_def stepperId_def direction_def)

text \<open>
  C8.  \<open>e1 < e2\<close> holds exactly when the time of \<open>e1\<close> is strictly earlier than the time
  of \<open>e2\<close>, and \<open>e1 > e2\<close> exactly when it is strictly later; replacing the device index
  and the direction of either event changes neither comparison; and with nanosecond
  ticks an event at 1.000 s on device 0 is less than an event at 1.5 s on device 1.
\<close>

theorem Event_order_by_time:
  "Event_less e1 e2 = (time e1 < time e2)
   \<and> Event_greater e1 e2 = (time e2 < time e1)
   \<and> Event_less (e1\<lparr>ev_stepperNum := a1, ev_isForward := f1\<rparr>)
        (e2\<lparr>ev_stepperNum := a2, ev_isForward := f2\<rparr>) = Event_less e1 e2
   \<and> Event_greater (e1\<lparr>ev_stepperNum := a1, ev_isForward := f1\<rparr>)
        (e2\<lparr>ev_stepperNum := a2, ev_isForward := f2\<rparr>) = Event_greater e1 e2
   \<and> Event_less (Event_init (1000000000 :: int) (0 :: nat) StepForward)
        (Event_init 1500000000 1 StepBackward)"
  by (simp add: Event_less_def Event_greater_def time_def Event_init_def)

section \<open>Cursors\<close>

lemma increment_at_end: "increment P t (length t) = Some (Inl AssertionFailure)"
  by (subst increment.simps) (simp add: isAtEnd_def)

text \<open>Below the end the loop returns: it stops at the next accepted driver or at the end.\<close>

lemma increment_below:
  "idx < length t \<Longrightarrow> increment P t idx = Some (Inr (Suc idx + skipped P t (Suc idx)))"
proof (induction "length t - idx" arbitrary: idx)
  case 0
  then show ?case by simp
next
  case (Suc n)
  show ?case
  proof (cases "Suc idx = length t")
    case True
    then show ?thesis
      by (subst increment.simps) (simp add: isAtEnd_def skipped_def)
  next
    case False
    with Suc.prems have lt: "Suc idx < length t" by simp
    have n: "n = length t - Suc idx" using Suc.hyps(2) by simp
    show ?thesis
    proof (cases "P (Some (t ! Suc idx))")
      case True
      with lt show ?thesis
        by (subst increment.simps)
          (simp add: isAtEnd_def skipped_def driverAt_def upt_conv_Cons)
    next
      case False
      from Suc.hyps(1)[OF n lt] False lt Suc.prems show ?thesis
        by (subst increment.simps)
          (simp add: isAtEnd_def skipped_def driverAt_def upt_conv_Cons[of "Suc idx"])
    qed
  qed
qed

lemma skipped_le: "j \<le> length t \<Longrightarrow> j + skipped P t j \<le> length t"
  unfolding skipped_def
  using length_takeWhile_le[of "\<lambda>i. \<not> P (Some (t ! i))" "[j..<length t]"] by simp

lemma next_matches:
  "j + skipped P t j < length t \<Longrightarrow> P (Some (t ! (j + skipped P t j)))"
proof -
  let ?xs = "[j..<length t]"
  let ?N = "\<lambda>i. \<not> P (Some (t ! i))"
  assume a: "j + skipped P t j < length t"
  then have "length (takeWhile ?N ?xs) < length ?xs" by (simp add: skipped_def)
  then have "\<not> ?N (?xs ! length (takeWhile ?N ?xs))" by (rule nth_length_takeWhile)
  with a show ?thesis by (simp add: skipped_def)
qed

text \<open>
  C9.  Incrementing the end cursor fails the assertion, and the failure is a fault, not
  a result.  Incrementing a cursor below the end returns, without a fault, an index
  above the old one and at most the size.
\<close>

theorem increment_assertion:
  "increment P t (length t) = Some (Inl AssertionFailure)
   \<and> (idx < length t \<longrightarrow>
        (\<exists>idx'. increment P t idx = Some (Inr idx') \<and> idx < idx' \<and> idx' \<le> length t))"
proof (intro conjI impI)
  show "increment P t (length t) = Some (Inl AssertionFailure)"
    by (rule increment_at_end)
next
  assume lt: "idx < length t"
  then have "increment P t idx = Some (Inr (Suc idx + skipped P t (Suc idx)))"
    by (rule increment_below)
  moreover have "Suc idx + skipped P t (Suc idx) \<le> length t"
    using lt by (intro skipped_le) simp
  ultimately show "\<exists>idx'. increment P t idx = Some (Inr idx') \<and> idx < idx' \<and> idx' \<le> length t"
    by simp
qed

theorem increment_assertion_witness:
  "(0 :: nat) < length [False, False, True]
   \<and> increment (\<lambda>self. self = Some True) [False, False, True] 0 = Some (Inr 2)
   \<and> increment (\<lambda>self. self = Some True) [False, False, True] 3 = Some (Inl AssertionFailure)"
  using increment_assertion [of "\<lambda>self. self = Some True" "[False, False, True]" 0]
  by (simp add: increment_below skipped_def upt_conv_Cons numeral_3_eq_3 del: upt_Suc)

section \<open>The fold\<close>

lemma filter_from:
  "filter Q [j..<n] = filter Q [j + length (takeWhile (\<lambda>i. \<not> Q i) [j..<n])..<n]"
proof -
  let ?xs = "[j..<n]"
  let ?N = "\<lambda>i. \<not> Q i"
  have "filter Q ?xs = filter Q (takeWhile ?N ?xs @ dropWhile ?N ?xs)" by simp
  also have "\<dots> = filter Q (dropWhile ?N ?xs)"
    by (simp only: filter_append) (auto simp: filter_empty_conv dest: set_takeWhileD)
  also have "dropWhile ?N ?xs = drop (length (takeWhile ?N ?xs)) ?xs"
    by (rule dropWhile_eq_drop)
  also have "\<dots> = [j + length (takeWhile ?N ?xs)..<n]" by (simp add: drop_upt)
  finally show ?thesis .
qed

text \<open>
  From an accepted cursor, or from the end, the loop of \<open>reduce\<close> is the left fold over
  the accepted indices that remain.
\<close>

lemma reduce_loop_fold:
  "it \<le> length t \<Longrightarrow> (it < length t \<Longrightarrow> P (Some (t ! it))) \<Longrightarrow>
   reduce_loop P f (length t) it r t =
     Some (Inr (foldl (step_at f) (r, t) (filter (\<lambda>i. P (Some (t ! i))) [it..<length t])))"
proof (induction "length t - it" arbitrary: it r t rule: less_induct)
  case less
  show ?case
  proof (cases "it = length t")
    case True
    then show ?thesis by (subst reduce_loop.simps) simp
  next
    case False
    with less.prems have lt: "it < length t" and pit: "P (Some (t ! it))" by simp_all
    obtain r' d' where fr: "f r it (t ! it) = (r', d')" by (cases "f r it (t ! it)")
    define t' where "t' = t[it := d']"
    define j where "j = Suc it + skipped P t' (Suc it)"
    have len: "length t' = length t" by (simp add: t'_def)
    have inc: "increment P t' it = Some (Inr j)"
      unfolding j_def using lt len by (simp add: increment_below)
    have jle: "j \<le> length t'"
      unfolding j_def using skipped_le[of "Suc it" t' P] lt len by simp
    have jgt: "it < j" by (simp add: j_def)
    have pj: "j < length t' \<Longrightarrow> P (Some (t' ! j))"
      unfolding j_def by (rule next_matches)
    have ih: "reduce_loop P f (length t') j r' t' =
        Some (Inr (foldl (step_at f) (r', t') (filter (\<lambda>i. P (Some (t' ! i))) [j..<length t'])))"
      by (rule less.hyps) (use jle jgt pj lt len in auto)
    have same: "filter (\<lambda>i. P (Some (t ! i))) [Suc it..<length t]
        = filter (\<lambda>i. P (Some (t' ! i))) [Suc it..<length t]"
      by (rule filter_cong) (auto simp: t'_def)
    have "filter (\<lambda>i. P (Some (t ! i))) [it..<length t]
        = it # filter (\<lambda>i. P (Some (t' ! i))) [Suc it..<length t]"
      using lt pit same by (simp add: upt_conv_Cons)
    also have "filter (\<lambda>i. P (Some (t' ! i))) [Suc it..<length t]
        = filter (\<lambda>i. P (Some (t' ! i))) [j..<length t']"
      unfolding j_def skipped_def len by (rule filter_from)
    finally have fl: "filter (\<lambda>i. P (Some (t ! i))) [it..<length t]
        = it # filter (\<lambda>i. P (Some (t' ! i))) [j..<length t']" .
    have st: "step_at f (r, t) it = (r', t')"
      by (simp add: step_at_def fr t'_def)
    have "reduce_loop P f (length t) it r t = reduce_loop P f (length t') j r' t'"
      using False lt fr inc len
      by (subst reduce_loop.simps) (simp add: driverAt_def t'_def)
    then show ?thesis by (simp add: ih fl st)
  qed
qed

lemma begin_it_ok:
  "t \<noteq> [] \<or> P None \<Longrightarrow> begin_it P t = Some (Inr (0 + skipped P t 0))"
proof (cases "P (driverAt t 0)")
  case True
  assume "t \<noteq> [] \<or> P None"
  from True show ?thesis
    by (cases t)
      (simp_all add: begin_it_def iterator_def skipped_def driverAt_def upt_conv_Cons
        del: upt_Suc)
next
  case False
  assume a: "t \<noteq> [] \<or> P None"
  with False have ne: "0 < length t" by (cases t) (auto simp: driverAt_def)
  with False have np: "\<not> P (Some (t ! 0))" by (simp add: driverAt_def)
  from False ne np show ?thesis
    by (simp add: begin_it_def iterator_def increment_below skipped_def upt_conv_Cons[of 0])
qed

lemma begin_it_abort:
  "t = [] \<Longrightarrow> \<not> P None \<Longrightarrow> begin_it P t = Some (Inl AssertionFailure)"
  using increment_at_end[of P "[]"] by (simp add: begin_it_def iterator_def driverAt_def)

lemma end_it_eq: "end_it P t = Some (Inr (length t))"
  by (simp add: end_it_def iterator_def)

lemma reduce_fold:
  assumes "t \<noteq> [] \<or> P None"
  shows "reduce P f dflt t = Some (Inr (foldl (step_at f) (dflt, t) (matching P t)))"
proof -
  let ?b = "0 + skipped P t 0"
  have b: "begin_it P t = Some (Inr ?b)" using assms by (rule begin_it_ok)
  have ble: "?b \<le> length t" by (rule skipped_le) simp
  have pb: "?b < length t \<Longrightarrow> P (Some (t ! ?b))" by (rule next_matches)
  have "reduce P f dflt t = reduce_loop P f (length t) ?b dflt t"
    by (simp add: reduce_def b end_it_eq)
  also have "\<dots> = Some (Inr (foldl (step_at f) (dflt, t)
       (filter (\<lambda>i. P (Some (t ! i))) [?b..<length t])))"
    using ble pb by (rule reduce_loop_fold)
  also have "filter (\<lambda>i. P (Some (t ! i))) [?b..<length t] = matching P t"
    unfolding matching_def skipped_def by (rule filter_from[symmetric])
  finally show ?thesis .
qed

lemma reduce_abort:
  "\<not> P None \<Longrightarrow> reduce P f dflt [] = Some (Inl AssertionFailure)"
  by (simp add: reduce_def begin_it_abort)

section \<open>The next event\<close>

lemma matching_iter: "matching iter t = [0..<length t]"
  by (simp add: matching_def iter_def NoPredicate_def)

lemma peek_step_tuple: "snd (step_at (peekNextEvent_step c N) s i) = snd s"
  by (simp add: step_at_def peekNextEvent_step_def Let_def)

lemma peek_fold_tuple: "snd (foldl (step_at (peekNextEvent_step c N)) s js) = snd s"
  by (induction js arbitrary: s) (simp_all add: peek_step_tuple)

lemma peek_step_best:
  "fst (step_at (peekNextEvent_step c N) (b, t) i) =
     (if isNull N (snd b)
         \<or> (\<not> isNull N (drv_peekNextEvent c (t ! i))
            \<and> time (drv_peekNextEvent c (t ! i)) < time (snd b))
      then (i, drv_peekNextEvent c (t ! i)) else b)"
  by (simp add: step_at_def peekNextEvent_step_def Let_def)

lemma peek_fold_Suc:
  "fst (foldl (step_at (peekNextEvent_step c N)) (b, t) [0..<Suc n]) =
     (let b' = fst (foldl (step_at (peekNextEvent_step c N)) (b, t) [0..<n]) in
      if isNull N (snd b')
         \<or> (\<not> isNull N (drv_peekNextEvent c (t ! n))
            \<and> time (drv_peekNextEvent c (t ! n)) < time (snd b'))
      then (n, drv_peekNextEvent c (t ! n)) else b')"
proof -
  define s where "s = foldl (step_at (peekNextEvent_step c N)) (b, t) [0..<n]"
  have "snd s = t" by (simp add: s_def peek_fold_tuple)
  then have s: "s = (fst s, t)" by (metis prod.collapse)
  have "fst (foldl (step_at (peekNextEvent_step c N)) (b, t) [0..<Suc n])
      = fst (step_at (peekNextEvent_step c N) s n)"
    by (simp add: s_def)
  also have "\<dots> = fst (step_at (peekNextEvent_step c N) (fst s, t) n)"
    using s by simp
  finally show ?thesis
    by (simp only: peek_step_best Let_def s_def)
qed

lemma peek_invariant:
  fixes c :: "('d, 't::linorder, 'a, 'i) Capabilities"
  assumes "isNull N (snd b)"
  shows "(isNull N (snd (best_upto c N b t n))
            \<longleftrightarrow> (\<forall>i<n. isNull N (drv_peekNextEvent c (t ! i))))
       \<and> (\<not> isNull N (snd (best_upto c N b t n)) \<longrightarrow>
            fst (best_upto c N b t n) < n
            \<and> snd (best_upto c N b t n) = drv_peekNextEvent c (t ! fst (best_upto c N b t n))
            \<and> (\<forall>i<n. \<not> isNull N (drv_peekNextEvent c (t ! i)) \<longrightarrow>
                  time (snd (best_upto c N b t n)) \<le> time (drv_peekNextEvent c (t ! i))))"
proof (induction n)
  case 0
  show ?case using assms by (simp add: best_upto_def)
next
  case (Suc n)
  have step: "best_upto c N b t (Suc n) =
     (if isNull N (snd (best_upto c N b t n))
         \<or> (\<not> isNull N (drv_peekNextEvent c (t ! n))
            \<and> time (drv_peekNextEvent c (t ! n)) < time (snd (best_upto c N b t n)))
      then (n, drv_peekNextEvent c (t ! n)) else best_upto c N b t n)"
    unfolding best_upto_def by (simp only: peek_fold_Suc Let_def)
  show ?case
  proof (cases "isNull N (snd (best_upto c N b t n))")
    case True
    with Suc.IH show ?thesis
      by (auto simp: step less_Suc_eq)
  next
    case False
    with Suc.IH show ?thesis
      by (auto simp: step less_Suc_eq)
  qed
qed

lemma peek_all_null:
  assumes "isNull N (snd b)"
    and "\<forall>i<n. isNull N (drv_peekNextEvent c (t ! i))"
  shows "best_upto c N b t n = (if n = 0 then b else (n - 1, drv_peekNextEvent c (t ! (n - 1))))"
  using assms(2)
proof (induction n)
  case 0
  show ?case by (simp add: best_upto_def)
next
  case (Suc n)
  have step: "best_upto c N b t (Suc n) =
     (if isNull N (snd (best_upto c N b t n))
         \<or> (\<not> isNull N (drv_peekNextEvent c (t ! n))
            \<and> time (drv_peekNextEvent c (t ! n)) < time (snd (best_upto c N b t n)))
      then (n, drv_peekNextEvent c (t ! n)) else best_upto c N b t n)"
    unfolding best_upto_def by (simp only: peek_fold_Suc Let_def)
  from Suc.prems have prev: "\<forall>i<n. isNull N (drv_peekNextEvent c (t ! i))" by simp
  have "isNull N (snd (best_upto c N b t n))"
    using Suc.IH[OF prev] assms(1) prev by (cases n) simp_all
  then show ?case by (simp add: step)
qed

lemma peekNextEvent_fold:
  "peekNextEvent c N e0 t =
     Some (Inr (best_upto c N (length t, OutputEvent_default N e0) t (length t), t))"
proof -
  let ?s = "foldl (step_at (peekNextEvent_step c N))
              ((length t, OutputEvent_default N e0), t) [0..<length t]"
  have "peekNextEvent c N e0 t = Some (Inr ?s)"
    by (simp add: peekNextEvent_def end_it_eq reduce_fold iter_def NoPredicate_def
        matching_iter[unfolded iter_def])
  moreover have "?s = (fst ?s, snd ?s)" by simp
  moreover have "snd ?s = t" by (simp add: peek_fold_tuple)
  ultimately show ?thesis by (simp add: best_upto_def)
qed

lemma default_isNull: "isNull N (OutputEvent_default N e0)"
  by (simp add: isNull_def stepperId_def OutputEvent_default_def)

text \<open>
  C1.  On every device set \<open>peekNextEvent\<close> returns a cursor and an event, and leaves the
  drivers as they were.  The event is null exactly when the peeked event of every device
  is null.  When it is not null, the cursor designates a device, the event is that
  device's peeked event, and no device with a non-null peeked event has an earlier time.
\<close>

theorem peekNextEvent_earliest:
  fixes c :: "('d, 't::linorder, 'a, 'i) Capabilities"
  shows "\<exists>cur ev. peekNextEvent c N e0 t = Some (Inr ((cur, ev), t))
     \<and> (isNull N ev \<longleftrightarrow> (\<forall>d\<in>set t. isNull N (drv_peekNextEvent c d)))
     \<and> (\<not> isNull N ev \<longrightarrow>
          cur < length t \<and> ev = drv_peekNextEvent c (t ! cur)
          \<and> (\<forall>d\<in>set t. \<not> isNull N (drv_peekNextEvent c d) \<longrightarrow>
                time ev \<le> time (drv_peekNextEvent c d)))"
proof -
  define b where "b = best_upto c N (length t, OutputEvent_default N e0) t (length t)"
  have inv: "(isNull N (snd b) \<longleftrightarrow> (\<forall>i<length t. isNull N (drv_peekNextEvent c (t ! i))))
       \<and> (\<not> isNull N (snd b) \<longrightarrow>
            fst b < length t
            \<and> snd b = drv_peekNextEvent c (t ! fst b)
            \<and> (\<forall>i<length t. \<not> isNull N (drv_peekNextEvent c (t ! i)) \<longrightarrow>
                  time (snd b) \<le> time (drv_peekNextEvent c (t ! i))))"
    unfolding b_def by (rule peek_invariant) (simp add: default_isNull)
  have res: "peekNextEvent c N e0 t = Some (Inr ((fst b, snd b), t))"
    by (simp add: peekNextEvent_fold b_def)
  from inv have "(isNull N (snd b) \<longleftrightarrow> (\<forall>d\<in>set t. isNull N (drv_peekNextEvent c d)))
       \<and> (\<not> isNull N (snd b) \<longrightarrow>
            fst b < length t
            \<and> snd b = drv_peekNextEvent c (t ! fst b)
            \<and> (\<forall>d\<in>set t. \<not> isNull N (drv_peekNextEvent c d) \<longrightarrow>
                  time (snd b) \<le> time (drv_peekNextEvent c d)))"
    by (simp add: all_set_conv_all_nth)
  with res show ?thesis by blast
qed

text \<open>
  C2, as amended.  When the peeked event of every device is null, \<open>peekNextEvent\<close> returns
  a pair whose event is null: the end cursor with the default-constructed event when
  the device set is empty, and otherwise the cursor of the last device with that device's
  peeked event.  In the fold, a device whose peek returns null never replaces a running
  best that is not null.
\<close>

theorem peekNextEvent_all_null:
  "((\<forall>d\<in>set t. isNull N (drv_peekNextEvent c d)) \<longrightarrow>
      peekNextEvent c N e0 t =
        Some (Inr (if t = [] then (length t, OutputEvent_default N e0)
                   else (length t - 1, drv_peekNextEvent c (last t)), t))
      \<and> isNull N (if t = [] then OutputEvent_default N e0 else drv_peekNextEvent c (last t)))
   \<and> (isNull N (drv_peekNextEvent c d) \<and> \<not> isNull N (snd reduced) \<longrightarrow>
        peekNextEvent_step c N reduced it d = (reduced, d))"
proof (intro conjI impI)
  assume a: "\<forall>d\<in>set t. isNull N (drv_peekNextEvent c d)"
  then have n: "\<forall>i<length t. isNull N (drv_peekNextEvent c (t ! i))" by simp
  have "best_upto c N (length t, OutputEvent_default N e0) t (length t) =
      (if length t = 0 then (length t, OutputEvent_default N e0)
       else (length t - 1, drv_peekNextEvent c (t ! (length t - 1))))"
    by (rule peek_all_null) (simp_all add: default_isNull n)
  then show "peekNextEvent c N e0 t =
        Some (Inr (if t = [] then (length t, OutputEvent_default N e0)
                   else (length t - 1, drv_peekNextEvent c (last t)), t))"
    by (simp add: peekNextEvent_fold last_conv_nth)
  show "isNull N (if t = [] then OutputEvent_default N e0 else drv_peekNextEvent c (last t))"
    using a by (simp add: default_isNull)
next
  assume "isNull N (drv_peekNextEvent c d) \<and> \<not> isNull N (snd reduced)"
  then show "peekNextEvent_step c N reduced it d = (reduced, d)"
    by (simp add: peekNextEvent_step_def Let_def)
qed


lemma ex_peek_eval:
  "peekNextEvent ex_caps 255 ex_e0 ex_tuple =
     Some (Inr ((2, Event_init 3000 1 StepForward), ex_tuple))
   \<and> \<not> isNull 255 (Event_init (3000 :: int) (1 :: nat) StepForward)
   \<and> isNull 255 (drv_peekNextEvent ex_caps (ex_tuple ! 0))
   \<and> \<not> isNull 255 (drv_peekNextEvent ex_caps (ex_tuple ! 3))
   \<and> time (drv_peekNextEvent ex_caps (ex_tuple ! 3)) = 3000"
  by code_simp

theorem peekNextEvent_earliest_witness:
  "peekNextEvent ex_caps 255 ex_e0 ex_tuple =
     Some (Inr ((2, Event_init 3000 1 StepForward), ex_tuple))
   \<and> \<not> isNull 255 (Event_init (3000 :: int) (1 :: nat) StepForward)
   \<and> isNull 255 (drv_peekNextEvent ex_caps (ex_tuple ! 0))
   \<and> \<not> isNull 255 (drv_peekNextEvent ex_caps (ex_tuple ! 3))
   \<and> time (drv_peekNextEvent ex_caps (ex_tuple ! 3)) = 3000"
  using peekNextEvent_earliest [of ex_caps 255 ex_e0 ex_tuple]
  by - (rule ex_peek_eval)

text \<open>
  C2 as stated fails on a single device whose peeked event is null: the result is the
  cursor of that device with its event, not the end cursor with the default-constructed
  event, and the device has replaced the running best.
\<close>

theorem peekNextEvent_all_null_counterexample:
  "isNull 255 (drv_peekNextEvent ex_caps (ex_driver 7 255 False))
   \<and> peekNextEvent ex_caps 255 ex_e0 [ex_driver 7 255 False]
       = Some (Inr ((0, Event_init 7 255 StepForward), [ex_driver 7 255 False]))
   \<and> peekNextEvent ex_caps 255 ex_e0 [ex_driver 7 255 False]
       \<noteq> Some (Inr ((length [ex_driver 7 255 False], OutputEvent_default 255 ex_e0),
                      [ex_driver 7 255 False]))
   \<and> peekNextEvent_step ex_caps 255 (1, OutputEvent_default 255 ex_e0) 0 (ex_driver 7 255 False)
       \<noteq> ((1, OutputEvent_default 255 ex_e0), ex_driver 7 255 False)"
  by code_simp

lemma ex_all_null_eval:
  "isNull 255 (drv_peekNextEvent ex_caps (ex_driver 7 255 False))
   \<and> isNull 255 (drv_peekNextEvent ex_caps (ex_driver 9 255 True))
   \<and> peekNextEvent ex_caps 255 ex_e0 [ex_driver 7 255 False, ex_driver 9 255 True]
       = Some (Inr ((1, Event_init 9 255 StepForward),
                    [ex_driver 7 255 False, ex_driver 9 255 True]))
   \<and> \<not> isNull 255 (snd (0 :: nat, Event_init (5 :: int) (0 :: nat) StepForward))
   \<and> peekNextEvent_step ex_caps 255 (0, Event_init 5 0 StepForward) 1 (ex_driver 7 255 False)
       = ((0, Event_init 5 0 StepForward), ex_driver 7 255 False)"
  by code_simp

theorem peekNextEvent_all_null_witness:
  "isNull 255 (drv_peekNextEvent ex_caps (ex_driver 7 255 False))
   \<and> isNull 255 (drv_peekNextEvent ex_caps (ex_driver 9 255 True))
   \<and> peekNextEvent ex_caps 255 ex_e0 [ex_driver 7 255 False, ex_driver 9 255 True]
       = Some (Inr ((1, Event_init 9 255 StepForward),
                    [ex_driver 7 255 False, ex_driver 9 255 True]))
   \<and> \<not> isNull 255 (snd (0 :: nat, Event_init (5 :: int) (0 :: nat) StepForward))
   \<and> peekNextEvent_step ex_caps 255 (0, Event_init 5 0 StepForward) 1 (ex_driver 7 255 False)
       = ((0, Event_init 5 0 StepForward), ex_driver 7 255 False)"
  using peekNextEvent_all_null [of "[ex_driver 7 255 False, ex_driver 9 255 True]" 255 ex_caps
      ex_e0 "ex_driver 7 255 False" "(0, Event_init 5 0 StepForward)" 1]
  by - (rule ex_all_null_eval)

section \<open>Probing every device\<close>

lemma called_on_Cons:
  assumes "j < length t" "j \<notin> set js"
  shows "called_on f js (t[j := snd (f j (t ! j))]) = called_on f (j # js) t"
  unfolding called_on_def using assms
  by (intro nth_equalityI) (auto simp: nth_list_update)

lemma fold_or_step:
  "distinct js \<Longrightarrow> \<forall>j\<in>set js. j < length t \<Longrightarrow>
   foldl (step_at (or_step f)) (r, t) js
     = (r \<or> (\<exists>j\<in>set js. fst (f j (t ! j))), called_on f js t)"
proof (induction js arbitrary: r t)
  case Nil
  show ?case by (simp add: called_on_def map_nth)
next
  case (Cons j js)
  let ?t' = "t[j := snd (f j (t ! j))]"
  have st: "step_at (or_step f) (r, t) j = (fst (f j (t ! j)) \<or> r, ?t')"
    by (simp add: step_at_def or_step_def split: prod.splits)
  have same: "\<forall>k\<in>set js. fst (f k (?t' ! k)) = fst (f k (t ! k))"
    using Cons.prems by (auto simp: nth_list_update)
  have "foldl (step_at (or_step f)) (r, t) (j # js)
      = foldl (step_at (or_step f)) (fst (f j (t ! j)) \<or> r, ?t') js"
    by (simp add: st)
  also have "\<dots> = ((fst (f j (t ! j)) \<or> r) \<or> (\<exists>k\<in>set js. fst (f k (?t' ! k))),
                    called_on f js ?t')"
    using Cons.prems by (intro Cons.IH) auto
  also have "called_on f js ?t' = called_on f (j # js) t"
    using Cons.prems by (intro called_on_Cons) auto
  finally show ?case using same by auto
qed

lemma fold_and_step:
  "distinct js \<Longrightarrow> \<forall>j\<in>set js. j < length t \<Longrightarrow>
   foldl (step_at (and_step f)) (r, t) js
     = (r \<and> (\<forall>j\<in>set js. fst (f j (t ! j))), called_on f js t)"
proof (induction js arbitrary: r t)
  case Nil
  show ?case by (simp add: called_on_def map_nth)
next
  case (Cons j js)
  let ?t' = "t[j := snd (f j (t ! j))]"
  have st: "step_at (and_step f) (r, t) j = (fst (f j (t ! j)) \<and> r, ?t')"
    by (simp add: step_at_def and_step_def split: prod.splits)
  have same: "\<forall>k\<in>set js. fst (f k (?t' ! k)) = fst (f k (t ! k))"
    using Cons.prems by (auto simp: nth_list_update)
  have "foldl (step_at (and_step f)) (r, t) (j # js)
      = foldl (step_at (and_step f)) (fst (f j (t ! j)) \<and> r, ?t') js"
    by (simp add: st)
  also have "\<dots> = ((fst (f j (t ! j)) \<and> r) \<and> (\<forall>k\<in>set js. fst (f k (?t' ! k))),
                    called_on f js ?t')"
    using Cons.prems by (intro Cons.IH) auto
  also have "called_on f js ?t' = called_on f (j # js) t"
    using Cons.prems by (intro called_on_Cons) auto
  finally show ?case using same by auto
qed

lemma matching_distinct: "distinct (matching P t)"
  by (simp add: matching_def)

lemma matching_bound: "\<forall>j\<in>set (matching P t). j < length t"
  by (simp add: matching_def)

lemma any_no_short_circuit:
  assumes "t \<noteq> [] \<or> P None"
  shows "any P f NO_SHORT_CIRCUIT t =
     Some (Inr ((\<exists>j\<in>set (matching P t). fst (f j (t ! j))), called_on f (matching P t) t))"
proof -
  have "any P f NO_SHORT_CIRCUIT t = reduce P (or_step f) False t"
    by (simp add: any_def or_step_def[abs_def])
  then show ?thesis
    using assms by (simp add: reduce_fold fold_or_step matching_distinct matching_bound)
qed

lemma all_no_short_circuit:
  assumes "t \<noteq> [] \<or> P None"
  shows "all P f NO_SHORT_CIRCUIT t =
     Some (Inr ((\<forall>j\<in>set (matching P t). fst (f j (t ! j))), called_on f (matching P t) t))"
proof -
  have "all P f NO_SHORT_CIRCUIT t = reduce P (and_step f) True t"
    by (simp add: all_def and_step_def[abs_def])
  then show ?thesis
    using assms by (simp add: reduce_fold fold_and_step matching_distinct matching_bound)
qed

text \<open>
  C3.  \<open>onIdleCpu(interval)\<close> calls the idle handler of every device once, whatever the
  handlers before it answered: afterwards each driver is in the state its handler left,
  and the result is true exactly when the handler of at least one device answered true.
\<close>

theorem onIdleCpu_every_device:
  "onIdleCpu c interval t =
     Some (Inr ((\<exists>d\<in>set t. fst (drv_onIdleCpu c d interval)),
                map (\<lambda>d. snd (drv_onIdleCpu c d interval)) t))"
proof -
  have "onIdleCpu c interval t =
      Some (Inr ((\<exists>j\<in>set [0..<length t]. fst (drv_onIdleCpu c (t ! j) interval)),
                 called_on (GenericOnIdleCpu c interval) [0..<length t] t))"
    by (simp add: onIdleCpu_def any_no_short_circuit iter_def NoPredicate_def
        matching_iter[unfolded iter_def] GenericOnIdleCpu_def)
  moreover have "(\<exists>j\<in>set [0..<length t]. fst (drv_onIdleCpu c (t ! j) interval))
      = (\<exists>d\<in>set t. fst (drv_onIdleCpu c d interval))"
    by (force simp: in_set_conv_nth)
  moreover have "called_on (GenericOnIdleCpu c interval) [0..<length t] t
      = map (\<lambda>d. snd (drv_onIdleCpu c d interval)) t"
    by (intro nth_equalityI) (simp_all add: called_on_def GenericOnIdleCpu_def)
  ultimately show ?thesis by simp
qed

lemma ex_idle_eval:
  "onIdleCpu ex_caps 10 ex_tuple = Some (Inr (True, map (\<lambda>d. d\<lparr>ex_ticks := 1\<rparr>) ex_tuple))
   \<and> fst (drv_onIdleCpu ex_caps (ex_tuple ! 2) 10)
   \<and> onIdleCpu ex_caps 10 [ex_driver 0 0 False, ex_driver 0 1 False]
       = Some (Inr (False, map (\<lambda>d. d\<lparr>ex_ticks := 1\<rparr>) [ex_driver 0 0 False, ex_driver 0 1 False]))"
  by code_simp

theorem onIdleCpu_every_device_witness:
  "onIdleCpu ex_caps 10 ex_tuple = Some (Inr (True, map (\<lambda>d. d\<lparr>ex_ticks := 1\<rparr>) ex_tuple))
   \<and> fst (drv_onIdleCpu ex_caps (ex_tuple ! 2) 10)
   \<and> onIdleCpu ex_caps 10 [ex_driver 0 0 False, ex_driver 0 1 False]
       = Some (Inr (False, map (\<lambda>d. d\<lparr>ex_ticks := 1\<rparr>) [ex_driver 0 0 False, ex_driver 0 1 False]))"
  using onIdleCpu_every_device [of ex_caps 10 ex_tuple]
  by - (rule ex_idle_eval)

lemma selects_iff: "selects P t i \<longleftrightarrow> i < length t \<and> P (Some (t ! i))"
proof (cases "t \<noteq> [] \<or> P None")
  case True
  have "foldl (step_at (\<lambda>seen it d. (seen @ [it], d))) (seen, t) js = (seen @ js, t)" for seen js
    by (induction js arbitrary: seen) (simp_all add: step_at_def)
  with True show ?thesis
    by (auto simp: selects_def reduce_fold matching_def)
next
  case False
  then show ?thesis by (simp add: selects_def reduce_abort)
qed

text \<open>
  C6.  \<open>A.unionWith(B)\<close> selects the same device indices as \<open>B.unionWith(A)\<close>, and
  \<open>heaters()\<close> selects an index exactly when \<open>hotends()\<close> or \<open>heatedBeds()\<close> selects it.
\<close>

theorem union_commutes_heaters:
  "selects (unionWith A B) t i = selects (unionWith B A) t i
   \<and> selects (heaters c) t i = (selects (hotends c) t i \<or> selects (heatedBeds c) t i)"
  by (auto simp: selects_iff unionWith_def Union_pred_def heaters_def)

lemma upto_first_Cons:
  "upto_first Q (j # js) = (if Q j then [j] else j # upto_first Q js)"
  by (simp add: upto_first_def)

lemma upto_first_subset: "set (upto_first Q js) \<subseteq> set js"
  unfolding upto_first_def
  using set_takeWhileD[of _ "\<lambda>j. \<not> Q j" js] set_dropWhileD[of _ "\<lambda>j. \<not> Q j" js]
  by (auto dest: in_set_takeD)

lemma upto_first_cong:
  "(\<And>j. j \<in> set js \<Longrightarrow> Q j = Q' j) \<Longrightarrow> upto_first Q js = upto_first Q' js"
proof (induction js)
  case Nil
  show ?case by (simp add: upto_first_def)
next
  case (Cons j js)
  then show ?case by (simp add: upto_first_Cons)
qed

lemma called_on_Nil: "called_on f [] t = t"
  by (simp add: called_on_def map_nth)

lemma fold_sc_or_True:
  "foldl (step_at (sc_or_step f)) (True, t) js = (True, t)"
  by (induction js) (simp_all add: step_at_def sc_or_step_def)

lemma fold_sc_and_False:
  "foldl (step_at (sc_and_step f)) (False, t) js = (False, t)"
  by (induction js) (simp_all add: step_at_def sc_and_step_def)

lemma fold_sc_or:
  "distinct js \<Longrightarrow> \<forall>j\<in>set js. j < length t \<Longrightarrow>
   foldl (step_at (sc_or_step f)) (False, t) js
     = ((\<exists>j\<in>set js. fst (f j (t ! j))),
        called_on f (upto_first (\<lambda>j. fst (f j (t ! j))) js) t)"
proof (induction js arbitrary: t)
  case Nil
  show ?case by (simp add: called_on_Nil upto_first_def)
next
  case (Cons j js)
  let ?t' = "t[j := snd (f j (t ! j))]"
  have st: "step_at (sc_or_step f) (False, t) j = (fst (f j (t ! j)), ?t')"
    by (simp add: step_at_def sc_or_step_def split: prod.splits)
  have jt: "j < length t" and jn: "j \<notin> set js" using Cons.prems by auto
  show ?case
  proof (cases "fst (f j (t ! j))")
    case True
    have "called_on f [j] t = ?t'"
      using called_on_Cons[OF jt, of "[]" f] by (simp add: called_on_Nil)
    with True show ?thesis
      by (simp add: st fold_sc_or_True upto_first_Cons)
  next
    case False
    have same: "\<And>k. k \<in> set js \<Longrightarrow> fst (f k (?t' ! k)) = fst (f k (t ! k))"
      using jn jt by (auto simp: nth_list_update)
    have "foldl (step_at (sc_or_step f)) (False, t) (j # js)
        = foldl (step_at (sc_or_step f)) (False, ?t') js"
      using False by (simp add: st)
    also have "\<dots> = ((\<exists>k\<in>set js. fst (f k (?t' ! k))),
        called_on f (upto_first (\<lambda>k. fst (f k (?t' ! k))) js) ?t')"
      using Cons.prems by (intro Cons.IH) auto
    also have "upto_first (\<lambda>k. fst (f k (?t' ! k))) js = upto_first (\<lambda>k. fst (f k (t ! k))) js"
      by (rule upto_first_cong) (rule same)
    also have "called_on f (upto_first (\<lambda>k. fst (f k (t ! k))) js) ?t'
        = called_on f (j # upto_first (\<lambda>k. fst (f k (t ! k))) js) t"
      using jt jn upto_first_subset[of "\<lambda>k. fst (f k (t ! k))" js]
      by (intro called_on_Cons) auto
    finally show ?thesis using False same by (auto simp: upto_first_Cons)
  qed
qed

lemma fold_sc_and:
  "distinct js \<Longrightarrow> \<forall>j\<in>set js. j < length t \<Longrightarrow>
   foldl (step_at (sc_and_step f)) (True, t) js
     = ((\<forall>j\<in>set js. fst (f j (t ! j))),
        called_on f (upto_first (\<lambda>j. \<not> fst (f j (t ! j))) js) t)"
proof (induction js arbitrary: t)
  case Nil
  show ?case by (simp add: called_on_Nil upto_first_def)
next
  case (Cons j js)
  let ?t' = "t[j := snd (f j (t ! j))]"
  have st: "step_at (sc_and_step f) (True, t) j = (fst (f j (t ! j)), ?t')"
    by (simp add: step_at_def sc_and_step_def split: prod.splits)
  have jt: "j < length t" and jn: "j \<notin> set js" using Cons.prems by auto
  show ?case
  proof (cases "fst (f j (t ! j))")
    case False
    have "called_on f [j] t = ?t'"
      using called_on_Cons[OF jt, of "[]" f] by (simp add: called_on_Nil)
    with False show ?thesis
      by (simp add: st fold_sc_and_False upto_first_Cons)
  next
    case True
    have same: "\<And>k. k \<in> set js \<Longrightarrow> (\<not> fst (f k (?t' ! k))) = (\<not> fst (f k (t ! k)))"
      using jn jt by (auto simp: nth_list_update)
    have "foldl (step_at (sc_and_step f)) (True, t) (j # js)
        = foldl (step_at (sc_and_step f)) (True, ?t') js"
      using True by (simp add: st)
    also have "\<dots> = ((\<forall>k\<in>set js. fst (f k (?t' ! k))),
        called_on f (upto_first (\<lambda>k. \<not> fst (f k (?t' ! k))) js) ?t')"
      using Cons.prems by (intro Cons.IH) auto
    also have "upto_first (\<lambda>k. \<not> fst (f k (?t' ! k))) js
        = upto_first (\<lambda>k. \<not> fst (f k (t ! k))) js"
      by (rule upto_first_cong) (rule same)
    also have "called_on f (upto_first (\<lambda>k. \<not> fst (f k (t ! k))) js) ?t'
        = called_on f (j # upto_first (\<lambda>k. \<not> fst (f k (t ! k))) js) t"
      using jt jn upto_first_subset[of "\<lambda>k. \<not> fst (f k (t ! k))" js]
      by (intro called_on_Cons) auto
    finally show ?thesis using True same by (auto simp: upto_first_Cons)
  qed
qed

lemma any_short_circuit:
  assumes "t \<noteq> [] \<or> P None"
  shows "any P f DO_SHORT_CIRCUIT t =
     Some (Inr ((\<exists>j\<in>set (matching P t). fst (f j (t ! j))),
                called_on f (upto_first (\<lambda>j. fst (f j (t ! j))) (matching P t)) t))"
proof -
  have "any P f DO_SHORT_CIRCUIT t = reduce P (sc_or_step f) False t"
    by (simp add: any_def sc_or_step_def[abs_def])
  then show ?thesis
    using assms by (simp add: reduce_fold fold_sc_or matching_distinct matching_bound)
qed

lemma all_short_circuit:
  assumes "t \<noteq> [] \<or> P None"
  shows "all P f DO_SHORT_CIRCUIT t =
     Some (Inr ((\<forall>j\<in>set (matching P t). fst (f j (t ! j))),
                called_on f (upto_first (\<lambda>j. \<not> fst (f j (t ! j))) (matching P t)) t))"
proof -
  have "all P f DO_SHORT_CIRCUIT t = reduce P (sc_and_step f) True t"
    by (simp add: all_def sc_and_step_def[abs_def])
  then show ?thesis
    using assms by (simp add: reduce_fold fold_sc_and matching_distinct matching_bound)
qed

lemma any_abort: "\<not> P None \<Longrightarrow> any P f sc [] = Some (Inl AssertionFailure)"
  by (simp add: any_def reduce_abort)

lemma all_abort: "\<not> P None \<Longrightarrow> all P f sc [] = Some (Inl AssertionFailure)"
  by (simp add: all_def reduce_abort)

section \<open>The combinators on every view\<close>

text \<open>
  \<open>begin()\<close> constructs \<open>iterator(drivers, 0, true)\<close>, and the constructor increments the
  cursor when the predicate rejects it, without asking whether it is the end cursor.  On
  the empty tuple the first cursor is the end cursor, so a predicate that rejects it
  sends every combinator into the assertion of \<open>operator++\<close>.
\<close>

text \<open>
  C4.  On the empty tuple with a predicate that rejects the end cursor, \<open>any\<close> and \<open>all\<close>
  end in the assertion failure of \<open>operator++\<close> instead of returning.  On every other
  tuple and predicate: without short-circuiting they call \<open>f\<close> once on every matching
  device and return the OR (the AND) of the answers; with short-circuiting they return
  the same boolean and call \<open>f\<close> once on the matching devices up to and including the
  first whose answer decides the result, and on none after it.
\<close>

theorem any_all_modes:
  "any P f NO_SHORT_CIRCUIT t =
     (if t = [] \<and> \<not> P None then Some (Inl AssertionFailure)
      else Some (Inr ((\<exists>j\<in>set (matching P t). fst (f j (t ! j))),
                      called_on f (matching P t) t)))
   \<and> all P f NO_SHORT_CIRCUIT t =
     (if t = [] \<and> \<not> P None then Some (Inl AssertionFailure)
      else Some (Inr ((\<forall>j\<in>set (matching P t). fst (f j (t ! j))),
                      called_on f (matching P t) t)))
   \<and> any P f DO_SHORT_CIRCUIT t =
     (if t = [] \<and> \<not> P None then Some (Inl AssertionFailure)
      else Some (Inr ((\<exists>j\<in>set (matching P t). fst (f j (t ! j))),
                      called_on f (upto_first (\<lambda>j. fst (f j (t ! j))) (matching P t)) t)))
   \<and> all P f DO_SHORT_CIRCUIT t =
     (if t = [] \<and> \<not> P None then Some (Inl AssertionFailure)
      else Some (Inr ((\<forall>j\<in>set (matching P t). fst (f j (t ! j))),
                      called_on f (upto_first (\<lambda>j. \<not> fst (f j (t ! j))) (matching P t)) t)))
   \<and> any ex_never g NO_SHORT_CIRCUIT [] = Some (Inl AssertionFailure)
   \<and> all ex_never g NO_SHORT_CIRCUIT [] = Some (Inl AssertionFailure)"
proof (cases "t = [] \<and> \<not> P None")
  case True
  then show ?thesis by (simp add: any_abort all_abort ex_never_def)
next
  case False
  then have ok: "t \<noteq> [] \<or> P None" by simp
  from False show ?thesis
    by (simp only: any_no_short_circuit[where P = P and t = t, OF ok] all_no_short_circuit[where P = P and t = t, OF ok]
        any_short_circuit[where P = P and t = t, OF ok] all_short_circuit[where P = P and t = t, OF ok] if_False)
      (simp add: any_abort all_abort ex_never_def)
qed

lemma ex_modes_eval:
  "any iter (GenericOnIdleCpu ex_caps 3) NO_SHORT_CIRCUIT ex_tuple
     = Some (Inr (True, map (\<lambda>d. d\<lparr>ex_ticks := 1\<rparr>) ex_tuple))
   \<and> any iter (GenericOnIdleCpu ex_caps 3) DO_SHORT_CIRCUIT ex_tuple
     = Some (Inr (True, map (\<lambda>d. d\<lparr>ex_ticks := 1\<rparr>) (take 3 ex_tuple) @ drop 3 ex_tuple))
   \<and> all iter (GenericOnIdleCpu ex_caps 3) NO_SHORT_CIRCUIT ex_tuple
     = Some (Inr (False, map (\<lambda>d. d\<lparr>ex_ticks := 1\<rparr>) ex_tuple))
   \<and> all iter (GenericOnIdleCpu ex_caps 3) DO_SHORT_CIRCUIT ex_tuple
     = Some (Inr (False, map (\<lambda>d. d\<lparr>ex_ticks := 1\<rparr>) (take 1 ex_tuple) @ drop 1 ex_tuple))
   \<and> matching iter ex_tuple = [0, 1, 2, 3]
   \<and> any ex_never (GenericOnIdleCpu ex_caps 3) NO_SHORT_CIRCUIT [] = Some (Inl AssertionFailure)"
  by code_simp

theorem any_all_modes_witness:
  "any iter (GenericOnIdleCpu ex_caps 3) NO_SHORT_CIRCUIT ex_tuple
     = Some (Inr (True, map (\<lambda>d. d\<lparr>ex_ticks := 1\<rparr>) ex_tuple))
   \<and> any iter (GenericOnIdleCpu ex_caps 3) DO_SHORT_CIRCUIT ex_tuple
     = Some (Inr (True, map (\<lambda>d. d\<lparr>ex_ticks := 1\<rparr>) (take 3 ex_tuple) @ drop 3 ex_tuple))
   \<and> all iter (GenericOnIdleCpu ex_caps 3) NO_SHORT_CIRCUIT ex_tuple
     = Some (Inr (False, map (\<lambda>d. d\<lparr>ex_ticks := 1\<rparr>) ex_tuple))
   \<and> all iter (GenericOnIdleCpu ex_caps 3) DO_SHORT_CIRCUIT ex_tuple
     = Some (Inr (False, map (\<lambda>d. d\<lparr>ex_ticks := 1\<rparr>) (take 1 ex_tuple) @ drop 1 ex_tuple))
   \<and> matching iter ex_tuple = [0, 1, 2, 3]
   \<and> any ex_never (GenericOnIdleCpu ex_caps 3) NO_SHORT_CIRCUIT [] = Some (Inl AssertionFailure)"
  using any_all_modes [of iter "GenericOnIdleCpu ex_caps 3" ex_tuple]
  by - (rule ex_modes_eval)

text \<open>
  C5.  On the empty tuple with a predicate that rejects the end cursor, \<open>reduce\<close> ends in
  the assertion failure of \<open>operator++\<close> instead of returning \<open>dflt\<close>.  On every other
  tuple and predicate it is the left fold of \<open>f\<close> over the matching devices in ascending
  index order from \<open>dflt\<close>: \<open>dflt\<close> itself when no device matches, and \<open>f\<close> applied
  to \<open>dflt\<close> and the device when exactly one matches.
\<close>

theorem reduce_left_fold:
  "reduce P f dflt t =
     (if t = [] \<and> \<not> P None then Some (Inl AssertionFailure)
      else Some (Inr (foldl (step_at f) (dflt, t) (matching P t))))
   \<and> (matching P t = [] \<longrightarrow>
        reduce P f dflt t =
          (if t = [] \<and> \<not> P None then Some (Inl AssertionFailure) else Some (Inr (dflt, t))))
   \<and> (matching P t = [j] \<longrightarrow> reduce P f dflt t = Some (Inr (step_at f (dflt, t) j)))
   \<and> reduce ex_never h dflt' [] = Some (Inl AssertionFailure)"
proof (cases "t = [] \<and> \<not> P None")
  case True
  then show ?thesis by (simp add: reduce_abort ex_never_def matching_def)
next
  case False
  then have ok: "t \<noteq> [] \<or> P None" by simp
  from False show ?thesis
    by (simp only: reduce_fold[where P = P and t = t, OF ok] if_False) (simp add: reduce_abort ex_never_def)
qed

lemma ex_reduce_eval:
  "length_view iter ex_tuple = Some (Inr (4, ex_tuple))
   \<and> matching ex_wanting ex_tuple = [2]
   \<and> length_view ex_wanting ex_tuple = Some (Inr (1, ex_tuple))
   \<and> matching ex_never ex_tuple = []
   \<and> length_view ex_never ex_tuple = Some (Inr (0, ex_tuple))
   \<and> length_view ex_never [] = Some (Inl AssertionFailure)"
  by code_simp

theorem reduce_left_fold_witness:
  "length_view iter ex_tuple = Some (Inr (4, ex_tuple))
   \<and> matching ex_wanting ex_tuple = [2]
   \<and> length_view ex_wanting ex_tuple = Some (Inr (1, ex_tuple))
   \<and> matching ex_never ex_tuple = []
   \<and> length_view ex_never ex_tuple = Some (Inr (0, ex_tuple))
   \<and> length_view ex_never [] = Some (Inl AssertionFailure)"
  using reduce_left_fold [of ex_wanting "\<lambda>numSeen it d. (numSeen + 1, d)" "0 :: nat" ex_tuple 2]
    reduce_left_fold [of ex_never "\<lambda>numSeen it d. (numSeen + 1, d)" "0 :: nat" ex_tuple]
  by - (rule ex_reduce_eval)

text \<open>
  C10.  When the predicate of a view matches no device, \<open>any\<close> returns false and \<open>all\<close>
  returns true in both modes and the drivers are as they were, except on the empty tuple
  with a predicate that rejects the end cursor, where both end in the assertion failure.
\<close>

theorem empty_view_any_all:
  "matching P t = [] \<longrightarrow>
     any P f sc t =
       (if t = [] \<and> \<not> P None then Some (Inl AssertionFailure) else Some (Inr (False, t)))
     \<and> all P f sc t =
       (if t = [] \<and> \<not> P None then Some (Inl AssertionFailure) else Some (Inr (True, t)))"
proof (cases "t = [] \<and> \<not> P None")
  case True
  then show ?thesis by (simp add: any_abort all_abort)
next
  case False
  then have ok: "t \<noteq> [] \<or> P None" by simp
  show ?thesis
  proof (cases sc)
    case NO_SHORT_CIRCUIT
    with False show ?thesis
      by (auto simp: any_no_short_circuit[where P = P and t = t, OF ok]
          all_no_short_circuit[where P = P and t = t, OF ok] called_on_Nil)
  next
    case DO_SHORT_CIRCUIT
    with False show ?thesis
      by (auto simp: any_short_circuit[where P = P and t = t, OF ok]
          all_short_circuit[where P = P and t = t, OF ok] called_on_Nil upto_first_def)
  qed
qed

lemma ex_empty_view_eval:
  "matching ex_never ex_tuple = []
   \<and> any ex_never (GenericOnIdleCpu ex_caps 3) NO_SHORT_CIRCUIT ex_tuple = Some (Inr (False, ex_tuple))
   \<and> any ex_never (GenericOnIdleCpu ex_caps 3) DO_SHORT_CIRCUIT ex_tuple = Some (Inr (False, ex_tuple))
   \<and> all ex_never (GenericOnIdleCpu ex_caps 3) NO_SHORT_CIRCUIT ex_tuple = Some (Inr (True, ex_tuple))
   \<and> all ex_never (GenericOnIdleCpu ex_caps 3) DO_SHORT_CIRCUIT ex_tuple = Some (Inr (True, ex_tuple))
   \<and> matching ex_never [] = []
   \<and> any ex_never (GenericOnIdleCpu ex_caps 3) NO_SHORT_CIRCUIT [] = Some (Inl AssertionFailure)
   \<and> any ex_never (GenericOnIdleCpu ex_caps 3) DO_SHORT_CIRCUIT [] = Some (Inl AssertionFailure)
   \<and> all ex_never (GenericOnIdleCpu ex_caps 3) NO_SHORT_CIRCUIT [] = Some (Inl AssertionFailure)
   \<and> all ex_never (GenericOnIdleCpu ex_caps 3) DO_SHORT_CIRCUIT [] = Some (Inl AssertionFailure)"
  by code_simp

theorem empty_view_any_all_witness:
  "matching ex_never ex_tuple = []
   \<and> any ex_never (GenericOnIdleCpu ex_caps 3) NO_SHORT_CIRCUIT ex_tuple = Some (Inr (False, ex_tuple))
   \<and> any ex_never (GenericOnIdleCpu ex_caps 3) DO_SHORT_CIRCUIT ex_tuple = Some (Inr (False, ex_tuple))
   \<and> all ex_never (GenericOnIdleCpu ex_caps 3) NO_SHORT_CIRCUIT ex_tuple = Some (Inr (True, ex_tuple))
   \<and> all ex_never (GenericOnIdleCpu ex_caps 3) DO_SHORT_CIRCUIT ex_tuple = Some (Inr (True, ex_tuple))
   \<and> matching ex_never [] = []
   \<and> any ex_never (GenericOnIdleCpu ex_caps 3) NO_SHORT_CIRCUIT [] = Some (Inl AssertionFailure)
   \<and> any ex_never (GenericOnIdleCpu ex_caps 3) DO_SHORT_CIRCUIT [] = Some (Inl AssertionFailure)
   \<and> all ex_never (GenericOnIdleCpu ex_caps 3) NO_SHORT_CIRCUIT [] = Some (Inl AssertionFailure)
   \<and> all ex_never (GenericOnIdleCpu ex_caps 3) DO_SHORT_CIRCUIT [] = Some (Inl AssertionFailure)"
  using empty_view_any_all [of ex_never ex_tuple "GenericOnIdleCpu ex_caps 3" NO_SHORT_CIRCUIT]
  by - (rule ex_empty_view_eval)

end
